theory Spec2Isabelle
  imports Main "HOL-Library.Word"
begin

section \<open>Data model\<close>

text \<open>
  A JavaScript string is a sequence of UTF-16 code units. Item text is kept in that
  form because \<^verbatim>\<open>String.prototype.trim\<close> is defined on code units. Identifiers, user ids
  and error messages are only compared or stored, never inspected.
\<close>

type_synonym code_unit = "16 word"
type_synonym js_string = "code_unit list"
type_synonym ident = string

text \<open>An entry of the \<^verbatim>\<open>items\<close> state: \<^verbatim>\<open>{ id, content, isCompleted, position }\<close>.\<close>

record item =
  item_id :: ident
  content :: js_string
  isCompleted :: bool
  position :: int

text \<open>
  A row as the remote table returns it for
  \<^verbatim>\<open>select("id, title, completed, position")\<close>; \<^verbatim>\<open>position\<close> may be null.
\<close>

record row =
  row_id :: ident
  title :: js_string
  completed :: bool
  row_position :: "int option"

text \<open>
  A row as the client sends it: \<^verbatim>\<open>insert\<close> payloads carry no id, \<^verbatim>\<open>upsert\<close> payloads
  carry the item's id.
\<close>

record payload =
  p_id :: "ident option"
  p_title :: js_string
  p_completed :: bool
  p_position :: int
  p_user_id :: string

datatype request =
    Select string
  | Insert "payload list"
  | Upsert "payload list"
  | Delete ident

text \<open>
  The component state that the list operations and the sign-in merge read or write,
  together with the two stores behind it: \<open>storage\<close> is the guest blob under
  \<^verbatim>\<open>todo-guest-items\<close> (\<open>None\<close> when the key is absent or does not parse to an array) and
  \<open>requests\<close> is the sequence of calls issued to the remote table so far.
  \<open>hasLocalStorage\<close> and \<open>quotaExceeded\<close> describe the browser: whether
  \<^verbatim>\<open>window.localStorage\<close> exists and whether \<^verbatim>\<open>setItem\<close> throws.
\<close>

record app =
  items :: "item list"
  draft :: js_string
  editingId :: "ident option"
  editingText :: js_string
  activeId :: "ident option"
  session :: "string option"
  hasSupabase :: bool
  isLoading :: bool
  dataError :: string
  hasLocalStorage :: bool
  quotaExceeded :: bool
  storage :: "item list option"
  requests :: "request list"

section \<open>Ordered item list\<close>

text \<open>\<^verbatim>\<open>itemsList.map((item, index) => ({ ...item, position: index }))\<close>\<close>

definition reindex :: "item list \<Rightarrow> item list" where
  "reindex itemsList =
     map (\<lambda>(index, it). it\<lparr>position := int index\<rparr>) (enumerate 0 itemsList)"

definition orderByCompletion :: "item list \<Rightarrow> item list" where
  "orderByCompletion itemsList =
     (let actives = filter (\<lambda>it. \<not> isCompleted it) itemsList;
          completed = filter (\<lambda>it. isCompleted it) itemsList
      in reindex (actives @ completed))"

text \<open>
  \<^verbatim>\<open>Array.prototype.findIndex\<close> and \<^verbatim>\<open>indexOf\<close> return \<open>-1\<close> when nothing matches;
  here that is \<open>None\<close>.
\<close>

fun findIndex :: "('a \<Rightarrow> bool) \<Rightarrow> 'a list \<Rightarrow> nat option" where
  "findIndex p [] = None"
| "findIndex p (x # xs) =
     (if p x then Some 0 else map_option Suc (findIndex p xs))"

definition indexOf :: "'a list \<Rightarrow> 'a \<Rightarrow> nat option" where
  "indexOf xs v = findIndex (\<lambda>x. x = v) xs"

text \<open>\<^verbatim>\<open>arr.splice(index, 0, x)\<close> for \<open>index \<le> length arr\<close>.\<close>

definition splice_in :: "nat \<Rightarrow> 'a \<Rightarrow> 'a list \<Rightarrow> 'a list" where
  "splice_in index x arr = take index arr @ x # drop index arr"

text \<open>
  Modelled from the spec: \<^verbatim>\<open>arrayMove\<close> is imported from the drag-and-drop library and
  its body is not part of the repository. The spec calls it the standard single-element
  list move, delete-then-insert: the element at \<open>fromIndex\<close> is taken out and put back at
  index \<open>toIndex\<close> of the shortened array. It is only called with both indices in range.
\<close>

definition arrayMove :: "'a list \<Rightarrow> nat \<Rightarrow> nat \<Rightarrow> 'a list" where
  "arrayMove array fromIndex toIndex =
     (let removed = take fromIndex array @ drop (Suc fromIndex) array
      in take toIndex removed @ take 1 (drop fromIndex array) @ drop toIndex removed)"

text \<open>
  A list is partitioned when no completed item is followed by an incomplete one, that is,
  when it is a run of incomplete items followed by a run of completed items. It is
  normalized when in addition the positions are \<open>0, 1, \<dots>, n - 1\<close>.
\<close>

fun partitioned :: "item list \<Rightarrow> bool" where
  "partitioned [] = True"
| "partitioned (x # xs) = (if isCompleted x then list_all isCompleted xs else partitioned xs)"

definition dense :: "item list \<Rightarrow> bool" where
  "dense xs = (map position xs = map int [0..<length xs])"

definition normalized :: "item list \<Rightarrow> bool" where
  "normalized xs = (partitioned xs \<and> dense xs)"

text \<open>An item without its advisory rank.\<close>

definition unranked :: "item \<Rightarrow> ident \<times> js_string \<times> bool" where
  "unranked it = (item_id it, content it, isCompleted it)"

text \<open>The two segments of a list, as sequences of unranked items.\<close>

definition active_segment :: "item list \<Rightarrow> (ident \<times> js_string \<times> bool) list" where
  "active_segment xs = map unranked (filter (\<lambda>i. \<not> isCompleted i) xs)"

definition completed_segment :: "item list \<Rightarrow> (ident \<times> js_string \<times> bool) list" where
  "completed_segment xs = map unranked (filter (\<lambda>i. isCompleted i) xs)"

section \<open>Guest store\<close>

definition loadGuestItems :: "app \<Rightarrow> item list" where
  "loadGuestItems s =
     (if \<not> hasLocalStorage s then []
      else case storage s of None \<Rightarrow> [] | Some parsed \<Rightarrow> parsed)"

definition persistGuestItems :: "item list \<Rightarrow> app \<Rightarrow> app" where
  "persistGuestItems nextItems s =
     (if \<not> hasLocalStorage s then s
      else if quotaExceeded s then s
      else s\<lparr>storage := Some nextItems\<rparr>)"

definition clearGuestItems :: "app \<Rightarrow> app" where
  "clearGuestItems s = (if \<not> hasLocalStorage s then s else s\<lparr>storage := None\<rparr>)"

section \<open>Write-through\<close>

definition to_payload :: "string \<Rightarrow> item \<Rightarrow> payload" where
  "to_payload uid it =
     \<lparr>p_id = Some (item_id it), p_title = content it, p_completed = isCompleted it,
      p_position = position it, p_user_id = uid\<rparr>"

definition send :: "request \<Rightarrow> app \<Rightarrow> app" where
  "send r s = s\<lparr>requests := requests s @ [r]\<rparr>"

text \<open>
  \<^verbatim>\<open>syncAll\<close> publishes the reindexed list with \<^verbatim>\<open>setItems\<close> and writes it through to
  the store in use. \<open>sess\<close> is the session of the closure that calls it.
\<close>

definition syncAll :: "string option \<Rightarrow> item list \<Rightarrow> app \<Rightarrow> app" where
  "syncAll sess nextItems s =
     (let withPositions = reindex nextItems;
          s1 = s\<lparr>items := withPositions\<rparr>
      in case sess of
           None \<Rightarrow> persistGuestItems withPositions s1
         | Some uid \<Rightarrow>
             if \<not> hasSupabase s then persistGuestItems withPositions s1
             else send (Upsert (map (to_payload uid) withPositions)) s1)"

text \<open>The callback of every fire-and-forget \<^verbatim>\<open>upsert\<close> and \<^verbatim>\<open>delete\<close>.\<close>

definition write_then :: "string option \<Rightarrow> app \<Rightarrow> app" where
  "write_then err s = (case err of None \<Rightarrow> s | Some message \<Rightarrow> s\<lparr>dataError := message\<rparr>)"

section \<open>Text input\<close>

text \<open>
  \<^verbatim>\<open>String.prototype.trim\<close> strips the code units that ECMAScript lists as WhiteSpace
  or LineTerminator from both ends.
\<close>

definition is_white_space :: "code_unit \<Rightarrow> bool" where
  "is_white_space c =
     (c = 0x0009 \<or> c = 0x000A \<or> c = 0x000B \<or> c = 0x000C \<or> c = 0x000D \<or> c = 0x0020
      \<or> c = 0x00A0 \<or> c = 0x1680 \<or> (0x2000 \<le> c \<and> c \<le> 0x200A)
      \<or> c = 0x2028 \<or> c = 0x2029 \<or> c = 0x202F \<or> c = 0x205F \<or> c = 0x3000
      \<or> c = 0xFEFF)"

definition trim :: "js_string \<Rightarrow> js_string" where
  "trim str = rev (dropWhile is_white_space (rev (dropWhile is_white_space str)))"

section \<open>List operations\<close>

text \<open>
  The index at which a new item goes: that of the first completed item, or the length of
  the list when there is none.
\<close>

definition insertIndexOf :: "item list \<Rightarrow> nat" where
  "insertIndexOf xs =
     (case findIndex (\<lambda>i. isCompleted i) xs of None \<Rightarrow> length xs | Some firstCompletedIndex \<Rightarrow> firstCompletedIndex)"

text \<open>
  \<^verbatim>\<open>handleSubmit\<close>. \<open>localId\<close> is the value \<^verbatim>\<open>generateLocalId()\<close> returns. With a session
  the function only issues the insert; the list changes in \<open>handleSubmit_then\<close>.
\<close>

definition handleSubmit :: "ident \<Rightarrow> app \<Rightarrow> app" where
  "handleSubmit localId s =
     (let trimmed = trim (draft s) in
      if trimmed = [] then s
      else
        let insertIndex = insertIndexOf (items s);
            guest =
              (let newItem = \<lparr>item_id = localId, content = trimmed, isCompleted = False,
                              position = int insertIndex\<rparr>;
                   nextItems = splice_in insertIndex newItem (items s)
               in (syncAll (session s) nextItems s)\<lparr>draft := []\<rparr>)
        in case session s of
             None \<Rightarrow> guest
           | Some uid \<Rightarrow>
               if \<not> hasSupabase s then guest
               else send (Insert [\<lparr>p_id = None, p_title = trimmed, p_completed = False,
                                    p_position = int insertIndex, p_user_id = uid\<rparr>]) s)"

text \<open>
  The \<^verbatim>\<open>.then\<close> callback of that insert. \<open>c\<close> is the state of the render in which
  \<^verbatim>\<open>handleSubmit\<close> ran: the callback reads \<^verbatim>\<open>items\<close>, \<^verbatim>\<open>insertIndex\<close> and \<^verbatim>\<open>session\<close> from
  that closure. \<open>reply\<close> is the error message, or \<^verbatim>\<open>data\<close> (null read as the empty
  array); \<open>s\<close> is the state when the reply arrives.
\<close>

definition handleSubmit_then :: "app \<Rightarrow> string + row list \<Rightarrow> app \<Rightarrow> app" where
  "handleSubmit_then c reply s =
     (case reply of
        Inl message \<Rightarrow> s\<lparr>dataError := message\<rparr>
      | Inr [] \<Rightarrow> s
      | Inr (inserted # _) \<Rightarrow>
          let insertIndex = insertIndexOf (items c);
              newItem = \<lparr>item_id = row_id inserted, content = title inserted,
                         isCompleted = completed inserted, position = int insertIndex\<rparr>;
              nextItems = splice_in insertIndex newItem (items c)
          in (syncAll (session c) nextItems s)\<lparr>draft := []\<rparr>)"

text \<open>
  The remaining operations pass a function to \<^verbatim>\<open>setItems\<close>. That function calls
  \<^verbatim>\<open>syncAll\<close>, which itself calls \<^verbatim>\<open>setItems\<close> with the reindexed list, and then returns
  its own list. Both values are kept: the first component of the result is the list the
  state updater returns (the current list when the operation returns before calling
  \<^verbatim>\<open>setItems\<close>), the second is the state after the body has run, whose \<open>items\<close> holds
  what \<^verbatim>\<open>syncAll\<close> published.
\<close>

definition handleToggle :: "ident \<Rightarrow> bool \<Rightarrow> app \<Rightarrow> item list \<times> app" where
  "handleToggle ident isCompleted' s =
     (let prev = items s;
          updated = map (\<lambda>it. if item_id it \<noteq> ident then it
                               else it\<lparr>isCompleted := isCompleted'\<rparr>) prev;
          actives = filter (\<lambda>i. \<not> isCompleted i) updated;
          completed = filter (\<lambda>i. isCompleted i) updated;
          nextItems = actives @ completed
      in (nextItems, syncAll (session s) nextItems s))"

definition handleDelete :: "ident \<Rightarrow> app \<Rightarrow> item list \<times> app" where
  "handleDelete ident s =
     (let s1 = (if hasSupabase s \<and> session s \<noteq> None then send (Delete ident) s else s);
          prev = items s;
          nextItems = filter (\<lambda>it. item_id it \<noteq> ident) prev
      in (nextItems, syncAll (session s) nextItems s1))"

definition commitEdit :: "ident \<Rightarrow> app \<Rightarrow> item list \<times> app" where
  "commitEdit ident s =
     (let nextContent = trim (editingText s) in
      if nextContent = [] then (items s, s\<lparr>editingId := None\<rparr>)
      else
        let prev = items s;
            nextItems = map (\<lambda>it. if item_id it = ident then it\<lparr>content := nextContent\<rparr>
                                   else it) prev
        in (nextItems, (syncAll (session s) nextItems s)\<lparr>editingId := None\<rparr>))"

text \<open>
  \<^verbatim>\<open>onDragEnd\<close>: \<open>active\<close> is the dragged id, \<open>over\<close> the drop target (\<open>None\<close> when the
  item is dropped outside the list). \<open>byId\<close> is the \<^verbatim>\<open>Map\<close> built from \<open>prev\<close>, in which a
  later entry replaces an earlier one with the same key. Every id looked up comes from
  \<open>prev\<close>, so no lookup misses.
\<close>

definition onDragEnd :: "ident \<Rightarrow> ident option \<Rightarrow> app \<Rightarrow> item list \<times> app" where
  "onDragEnd active over s =
     (let s0 = s\<lparr>activeId := None\<rparr>; prev = items s in
      case over of
        None \<Rightarrow> (prev, s0)
      | Some overId \<Rightarrow>
         (if active = overId then (prev, s0)
          else
           (case find (\<lambda>i. item_id i = active) prev of
              None \<Rightarrow> (prev, s0)
            | Some activeItem \<Rightarrow>
               (case find (\<lambda>i. item_id i = overId) prev of
                  None \<Rightarrow> (prev, s0)
                | Some overItem \<Rightarrow>
                   (let byId = map_of (rev (map (\<lambda>i. (item_id i, i)) prev));
                        activeIds = map item_id (filter (\<lambda>i. \<not> isCompleted i) prev);
                        completedIds = map item_id (filter (\<lambda>i. isCompleted i) prev);
                        segmentIds = (if isCompleted activeItem then completedIds
                                      else activeIds)
                    in (case indexOf segmentIds active of
                          None \<Rightarrow> (prev, s0)
                        | Some fromIndex \<Rightarrow>
                           (if isCompleted activeItem \<noteq> isCompleted overItem
                            then (prev, s0)
                            else
                             (case indexOf segmentIds overId of
                                None \<Rightarrow> (prev, s0)
                              | Some toIndex \<Rightarrow>
                                 (let reorderedSegment =
                                        arrayMove segmentIds fromIndex toIndex;
                                      nextActiveIds =
                                        (if isCompleted activeItem then activeIds
                                         else reorderedSegment);
                                      nextCompletedIds =
                                        (if isCompleted activeItem then reorderedSegment
                                         else completedIds);
                                      nextItems = List.map_filter byId
                                                    (nextActiveIds @ nextCompletedIds)
                                  in (nextItems,
                                      syncAll (session s) nextItems s0))))))))))"

section \<open>Sign-in merge\<close>

text \<open>
  \<^verbatim>\<open>normalizeRows\<close>: a row without a numeric position takes its index; the sort by
  position is stable.
\<close>

definition normalizeRows :: "row list \<Rightarrow> item list" where
  "normalizeRows rows =
     sort_key position
       (map (\<lambda>(index, r).
               \<lparr>item_id = row_id r, content = title r, isCompleted = completed r,
                position = (case row_position r of Some p \<Rightarrow> p | None \<Rightarrow> int index)\<rparr>)
            (enumerate 0 rows))"

text \<open>
  \<^verbatim>\<open>loadAndMerge\<close> suspends at three awaited calls. \<open>merge_pc\<close> names the call it is
  waiting for, with the values the continuation keeps: \<^verbatim>\<open>guestItems\<close> while the first
  select is pending, \<^verbatim>\<open>existing\<close> afterwards.
\<close>

datatype merge_pc =
    AwaitFetch "item list"
  | AwaitInsert "item list"
  | AwaitRefresh "item list"
  | Finished

text \<open>
  What the remote table answers: for a select the error message or \<^verbatim>\<open>data\<close> (possibly
  null), for the bulk insert and for an upsert the error message if any.
\<close>

datatype reply =
    SelectReply "string + row list option"
  | InsertReply "string option"
  | UpsertReply "string option"

definition insertPayload :: "string \<Rightarrow> item list \<Rightarrow> item list \<Rightarrow> payload list" where
  "insertPayload uid existing guestItems =
     map (\<lambda>(index, it).
            \<lparr>p_id = None, p_title = content it, p_completed = isCompleted it,
             p_position = int (length existing) + int index, p_user_id = uid\<rparr>)
         (enumerate 0 guestItems)"

text \<open>The effect body up to the first \<^verbatim>\<open>await\<close>.\<close>

definition loadAndMerge :: "app \<Rightarrow> merge_pc \<times> app" where
  "loadAndMerge s =
     (case session s of
        None \<Rightarrow> (Finished, s)
      | Some uid \<Rightarrow>
          if \<not> hasSupabase s then (Finished, s)
          else
            let s1 = s\<lparr>isLoading := True, dataError := []\<rparr>;
                guestItems = reindex (loadGuestItems s1)
            in (AwaitFetch guestItems, send (Select uid) s1))"

text \<open>
  The three continuations. \<open>cancelled\<close> is the value of the flag when the awaited call
  returns.
\<close>

definition after_fetch ::
  "bool \<Rightarrow> string \<Rightarrow> item list \<Rightarrow> string + row list option \<Rightarrow> app \<Rightarrow> merge_pc \<times> app" where
  "after_fetch cancelled uid guestItems answer s =
     (if cancelled then (Finished, s)
      else case answer of
        Inl message \<Rightarrow> (Finished, s\<lparr>dataError := message, items := [], isLoading := False\<rparr>)
      | Inr data \<Rightarrow>
          let existing = orderByCompletion
                (normalizeRows (case data of None \<Rightarrow> [] | Some rows \<Rightarrow> rows))
          in if guestItems = []
             then (Finished,
                   (send (Upsert (map (to_payload uid) existing))
                      (s\<lparr>items := existing\<rparr>))\<lparr>isLoading := False\<rparr>)
             else (AwaitInsert existing,
                   send (Insert (insertPayload uid existing guestItems)) s))"

definition after_insert ::
  "bool \<Rightarrow> string \<Rightarrow> item list \<Rightarrow> string option \<Rightarrow> app \<Rightarrow> merge_pc \<times> app" where
  "after_insert cancelled uid existing insertError s =
     (if cancelled then (Finished, s)
      else case insertError of
        Some message \<Rightarrow>
          (Finished, s\<lparr>dataError := message, items := existing, isLoading := False\<rparr>)
      | None \<Rightarrow> (AwaitRefresh existing, send (Select uid) (clearGuestItems s)))"

definition after_refresh ::
  "bool \<Rightarrow> string \<Rightarrow> item list \<Rightarrow> string + row list option \<Rightarrow> app \<Rightarrow> merge_pc \<times> app" where
  "after_refresh cancelled uid existing answer s =
     (if cancelled then (Finished, s)
      else
        (Finished,
         (case answer of
            Inl message \<Rightarrow> s\<lparr>dataError := message, items := existing\<rparr>
          | Inr None \<Rightarrow> s
          | Inr (Some refreshed) \<Rightarrow>
              let ordered = orderByCompletion (normalizeRows refreshed)
              in send (Upsert (map (to_payload uid) ordered)) (s\<lparr>items := ordered\<rparr>))
         \<lparr>isLoading := False\<rparr>))"

text \<open>
  One reply reaching the invocation. A select or insert reply resumes the awaited flow
  where it waits; an upsert reply runs the \<^verbatim>\<open>.then\<close> callback of the write-back, which
  does not read the flag. Replies that nothing waits for are dropped.
\<close>

fun merge_resume :: "bool \<Rightarrow> string \<Rightarrow> reply \<Rightarrow> merge_pc \<times> app \<Rightarrow> merge_pc \<times> app" where
  "merge_resume cancelled uid (SelectReply answer) (AwaitFetch guestItems, s) =
     after_fetch cancelled uid guestItems answer s"
| "merge_resume cancelled uid (InsertReply insertError) (AwaitInsert existing, s) =
     after_insert cancelled uid existing insertError s"
| "merge_resume cancelled uid (SelectReply answer) (AwaitRefresh existing, s) =
     after_refresh cancelled uid existing answer s"
| "merge_resume cancelled uid (UpsertReply upsertError) (pc, s) =
     (pc, write_then upsertError s)"
| "merge_resume cancelled uid r (pc, s) = (pc, s)"

text \<open>
  A run of the invocation: each event is a reply paired with the flag's value at the
  moment the reply is handled.
\<close>

definition merge_run :: "string \<Rightarrow> (bool \<times> reply) list \<Rightarrow> merge_pc \<times> app \<Rightarrow> merge_pc \<times> app" where
  "merge_run uid events cfg = foldl (\<lambda>c (cancelled, r). merge_resume cancelled uid r c) cfg events"

section \<open>The spec's drag reorder\<close>



section \<open>Concrete states\<close>

text \<open>
  A signed-out and a signed-in state around a given list, with working local storage and
  nothing else going on, and an item with a one-letter text.
\<close>

definition guest_app :: "item list \<Rightarrow> app" where
  "guest_app xs =
     \<lparr>items = xs, draft = [], editingId = None, editingText = [], activeId = None,
      session = None, hasSupabase = True, isLoading = False, dataError = [],
      hasLocalStorage = True, quotaExceeded = False, storage = Some xs, requests = []\<rparr>"

definition user_app :: "string \<Rightarrow> item list \<Rightarrow> app" where
  "user_app uid xs = (guest_app xs)\<lparr>session := Some uid, storage := None\<rparr>"

definition todo :: "ident \<Rightarrow> bool \<Rightarrow> int \<Rightarrow> item" where
  "todo i c p = \<lparr>item_id = i, content = [0x74], isCompleted = c, position = p\<rparr>"

section \<open>Facts about reindexing, partitions and lookups\<close>

lemma length_reindex: "length (reindex xs) = length xs"
  by (simp add: reindex_def)

lemma reindex_nth:
  "k < length xs \<Longrightarrow> reindex xs ! k = (xs ! k)\<lparr>position := int k\<rparr>"
  by (simp add: reindex_def nth_enumerate_eq)

lemma map_position_reindex: "map position (reindex xs) = map int [0..<length xs]"
  by (rule nth_equalityI) (simp_all add: length_reindex reindex_nth)

lemma dense_reindex: "dense (reindex xs)"
  by (simp add: dense_def map_position_reindex length_reindex)

lemma map_unranked_reindex: "map unranked (reindex xs) = map unranked xs"
  by (rule nth_equalityI) (simp_all add: length_reindex reindex_nth unranked_def)

lemma map_isCompleted_reindex: "map isCompleted (reindex xs) = map isCompleted xs"
  by (rule nth_equalityI) (simp_all add: length_reindex reindex_nth)

lemma map_item_id_reindex: "map item_id (reindex xs) = map item_id xs"
  by (rule nth_equalityI) (simp_all add: length_reindex reindex_nth)

lemma all_completed_ordered:
  "\<forall>x\<in>set xs. isCompleted x \<Longrightarrow> sorted_wrt (\<lambda>a b. isCompleted a \<longrightarrow> isCompleted b) xs"
  by (induction xs) auto

lemma partitioned_iff_ordered:
  "partitioned xs \<longleftrightarrow> sorted_wrt (\<lambda>a b. isCompleted a \<longrightarrow> isCompleted b) xs"
proof (induction xs)
  case Nil
  show ?case by simp
next
  case (Cons a xs)
  show ?case
    using Cons.IH all_completed_ordered [of xs] by (auto simp: list_all_iff)
qed

lemma partitioned_map_cong:
  "map isCompleted xs = map isCompleted ys \<Longrightarrow> partitioned xs = partitioned ys"
proof -
  assume eq: "map isCompleted xs = map isCompleted ys"
  have "sorted_wrt (\<longrightarrow>) (map isCompleted xs) = sorted_wrt (\<longrightarrow>) (map isCompleted ys)"
    by (simp add: eq)
  then show ?thesis by (simp add: partitioned_iff_ordered sorted_wrt_map)
qed

lemma partitioned_reindex: "partitioned (reindex xs) = partitioned xs"
  by (rule partitioned_map_cong) (rule map_isCompleted_reindex)

lemma partitioned_cong:
  "map unranked xs = map unranked ys \<Longrightarrow> partitioned xs = partitioned ys"
proof -
  assume "map unranked xs = map unranked ys"
  then have "map (\<lambda>u. snd (snd u)) (map unranked xs) = map (\<lambda>u. snd (snd u)) (map unranked ys)"
    by simp
  then have "map isCompleted xs = map isCompleted ys"
    by (simp add: unranked_def comp_def)
  then show ?thesis by (rule partitioned_map_cong)
qed

lemma partitioned_nth:
  "partitioned xs \<longleftrightarrow>
     (\<forall>i j. i < j \<and> j < length xs \<longrightarrow> \<not> (isCompleted (xs ! i) \<and> \<not> isCompleted (xs ! j)))"
  by (auto simp: partitioned_iff_ordered sorted_wrt_iff_nth_less)

lemma partitioned_all_completed:
  "\<forall>x\<in>set cs. isCompleted x \<Longrightarrow> partitioned cs"
  by (cases cs) (auto simp: list_all_iff)

lemma partitioned_append:
  "\<forall>x\<in>set as. \<not> isCompleted x \<Longrightarrow> \<forall>x\<in>set cs. isCompleted x \<Longrightarrow> partitioned (as @ cs)"
  by (induction as) (auto simp: partitioned_all_completed)

lemma partitioned_split:
  "partitioned (filter (\<lambda>i. \<not> isCompleted i) xs @ filter (\<lambda>i. isCompleted i) xs)"
  by (rule partitioned_append) auto

lemma partitioned_filter: "partitioned xs \<Longrightarrow> partitioned (filter P xs)"
  unfolding partitioned_iff_ordered by (rule sorted_wrt_filter)

lemma partitioned_decomp:
  "partitioned xs \<Longrightarrow> filter (\<lambda>i. \<not> isCompleted i) xs @ filter (\<lambda>i. isCompleted i) xs = xs"
  by (induction xs) (auto simp: list_all_iff filter_empty_conv filter_id_conv)


lemma findIndex_takeWhile:
  "findIndex p xs =
     (if \<exists>x\<in>set xs. p x then Some (length (takeWhile (\<lambda>x. \<not> p x) xs)) else None)"
  by (induction xs) auto

lemma insertIndexOf_takeWhile:
  "insertIndexOf xs = length (takeWhile (\<lambda>i. \<not> isCompleted i) xs)"
  by (auto simp: insertIndexOf_def findIndex_takeWhile takeWhile_eq_all_conv [THEN iffD2])

lemma insertIndexOf_le: "insertIndexOf xs \<le> length xs"
  by (simp add: insertIndexOf_takeWhile length_takeWhile_le)

lemma insertIndexOf_Cons:
  "insertIndexOf (x # xs) = (if isCompleted x then 0 else Suc (insertIndexOf xs))"
  by (simp add: insertIndexOf_takeWhile)

lemma partitioned_splice:
  "partitioned xs \<Longrightarrow> partitioned (splice_in (insertIndexOf xs) new xs)"
  by (induction xs) (auto simp: insertIndexOf_Cons insertIndexOf_takeWhile [of "[]"] splice_in_def)

lemma items_syncAll: "items (syncAll sess nextItems s) = reindex nextItems"
  by (simp add: syncAll_def Let_def persistGuestItems_def send_def split: option.splits)

lemma normalized_reindex: "partitioned xs \<Longrightarrow> normalized (reindex xs)"
  by (simp add: normalized_def partitioned_reindex dense_reindex)

lemma reindex_dense: "dense xs \<Longrightarrow> reindex xs = xs"
proof -
  assume d: "dense xs"
  have "\<And>k. k < length xs \<Longrightarrow> position (xs ! k) = int k"
  proof -
    fix k assume k: "k < length xs"
    then have "map position xs ! k = map int [0..<length xs] ! k"
      using d by (simp add: dense_def)
    with k show "position (xs ! k) = int k" by simp
  qed
  then show ?thesis
    by (intro nth_equalityI) (simp_all add: length_reindex reindex_nth)
qed

lemma byId_lookup:
  assumes "distinct (map item_id prev)" "x \<in> set prev"
  shows "map_of (rev (map (\<lambda>i. (item_id i, i)) prev)) (item_id x) = Some x"
proof -
  have "distinct (map fst (rev (map (\<lambda>i. (item_id i, i)) prev)))"
    using assms(1) by (simp add: rev_map [symmetric] comp_def)
  moreover have "(item_id x, x) \<in> set (rev (map (\<lambda>i. (item_id i, i)) prev))"
    using assms(2) by auto
  ultimately show ?thesis by (rule map_of_is_SomeI)
qed

lemma map_filter_byId:
  assumes "distinct (map item_id prev)" "set ys \<subseteq> set prev"
  shows "List.map_filter (map_of (rev (map (\<lambda>i. (item_id i, i)) prev))) (map item_id ys) = ys"
  using assms(2)
  by (induction ys) (simp_all add: map_filter_simps byId_lookup [OF assms(1)])

lemma arrayMove_map: "arrayMove (map f xs) a b = map f (arrayMove xs a b)"
  by (simp add: arrayMove_def Let_def take_map drop_map)

lemma set_arrayMove: "set (arrayMove xs a b) \<subseteq> set xs"
proof -
  have "set (take b (take a xs @ drop (Suc a) xs)) \<subseteq> set xs"
       "set (drop b (take a xs @ drop (Suc a) xs)) \<subseteq> set xs"
       "set (take 1 (drop a xs)) \<subseteq> set xs"
    by (auto dest!: in_set_takeD in_set_dropD)
  then show ?thesis
    unfolding arrayMove_def Let_def set_append by blast
qed

lemma findIndex_Some:
  "findIndex p xs = Some k \<Longrightarrow> k < length xs \<and> p (xs ! k) \<and> (\<forall>j<k. \<not> p (xs ! j))"
proof (induction xs arbitrary: k)
  case Nil
  then show ?case by simp
next
  case (Cons x xs)
  show ?case
  proof (cases "p x")
    case True
    with Cons.prems show ?thesis by simp
  next
    case False
    with Cons.prems obtain k' where k': "findIndex p xs = Some k'" "k = Suc k'"
      by auto
    from Cons.IH [OF k'(1)] False k'(2) show ?thesis
      by (auto simp: less_Suc_eq_0_disj)
  qed
qed

lemma indexOf_Some:
  "indexOf xs v = Some k \<Longrightarrow>
     k = length (takeWhile (\<lambda>x. x \<noteq> v) xs) \<and> k < length xs \<and> xs ! k = v"
  using findIndex_Some [of "\<lambda>x. x = v" xs k]
  by (auto simp: indexOf_def findIndex_takeWhile split: if_splits)

lemma indexOf_None: "indexOf xs v = None \<longleftrightarrow> v \<notin> set xs"
  by (auto simp: indexOf_def findIndex_takeWhile)


lemma active_segment_alt:
  "active_segment xs = filter (\<lambda>u. \<not> snd (snd u)) (map unranked xs)"
  by (simp add: active_segment_def filter_map comp_def unranked_def)

lemma completed_segment_alt:
  "completed_segment xs = filter (\<lambda>u. snd (snd u)) (map unranked xs)"
  by (simp add: completed_segment_def filter_map comp_def unranked_def)

lemma active_segment_reindex: "active_segment (reindex xs) = active_segment xs"
  by (simp add: active_segment_alt map_unranked_reindex)

lemma completed_segment_reindex: "completed_segment (reindex xs) = completed_segment xs"
  by (simp add: completed_segment_alt map_unranked_reindex)

section \<open>Stable partition\<close>

text \<open>
  Claim C7. For every list, \<^verbatim>\<open>orderByCompletion\<close> (the spec's partitionByCompletion)
  returns a list of the same length in which no completed item precedes an incomplete
  one; the incomplete items keep their relative order, and so do the completed items;
  and the positions of the result are \<open>0, 1, \<dots>, n - 1\<close>.
\<close>

theorem orderByCompletion_stable_partition:
  "length (orderByCompletion xs) = length xs
   \<and> (\<forall>i j. i < j \<and> j < length xs \<longrightarrow>
         \<not> (isCompleted (orderByCompletion xs ! i) \<and> \<not> isCompleted (orderByCompletion xs ! j)))
   \<and> active_segment (orderByCompletion xs) = active_segment xs
   \<and> completed_segment (orderByCompletion xs) = completed_segment xs
   \<and> map position (orderByCompletion xs) = map int [0..<length xs]"
proof -
  let ?ys = "filter (\<lambda>i. \<not> isCompleted i) xs @ filter (\<lambda>i. isCompleted i) xs"
  have ord: "orderByCompletion xs = reindex ?ys"
    by (simp add: orderByCompletion_def)
  have len': "length (filter (\<lambda>i. \<not> isCompleted i) xs) + length (filter isCompleted xs)
               = length xs"
    using sum_length_filter_compl [of "\<lambda>i. \<not> isCompleted i" xs] by simp
  then have len: "length ?ys = length xs"
    by simp
  have "partitioned (orderByCompletion xs)"
    by (simp only: ord partitioned_reindex partitioned_split)
  then have part: "\<forall>i j. i < j \<and> j < length xs \<longrightarrow>
         \<not> (isCompleted (orderByCompletion xs ! i) \<and> \<not> isCompleted (orderByCompletion xs ! j))"
    by (simp add: partitioned_nth ord length_reindex len')
  have act: "active_segment (orderByCompletion xs) = active_segment xs"
    by (simp add: ord active_segment_reindex) (simp add: active_segment_def)
  have com: "completed_segment (orderByCompletion xs) = completed_segment xs"
    by (simp add: ord completed_segment_reindex) (simp add: completed_segment_def)
  have pos: "map position (orderByCompletion xs) = map int [0..<length xs]"
    by (simp only: ord map_position_reindex len)
  show ?thesis
    using part act com pos len by (simp only: ord length_reindex simp_thms)
qed

theorem orderByCompletion_stable_partition_witness:
  "length (orderByCompletion [todo ''a'' True 5, todo ''b'' False 5, todo ''c'' True 0]) = 3
   \<and> \<not> (isCompleted (orderByCompletion [todo ''a'' True 5, todo ''b'' False 5, todo ''c'' True 0] ! 0)
        \<and> \<not> isCompleted (orderByCompletion [todo ''a'' True 5, todo ''b'' False 5, todo ''c'' True 0] ! 1))
   \<and> map item_id (orderByCompletion [todo ''a'' True 5, todo ''b'' False 5, todo ''c'' True 0])
       = [''b'', ''a'', ''c'']
   \<and> map position (orderByCompletion [todo ''a'' True 5, todo ''b'' False 5, todo ''c'' True 0])
       = [0, 1, 2]"
  using orderByCompletion_stable_partition
          [of "[todo ''a'' True 5, todo ''b'' False 5, todo ''c'' True 0]"]
  by (simp add: orderByCompletion_def reindex_def todo_def)

section \<open>Dragging across segments\<close>

text \<open>
  Claim C5. For every list, when the dragged id and the drop target id are those of items
  with different \<open>isCompleted\<close> values, \<^verbatim>\<open>onDragEnd\<close> leaves the list as it is: the
  state updater returns \<open>prev\<close> and \<^verbatim>\<open>syncAll\<close> is not called, so nothing is published or
  written through and the dragged item keeps its \<open>isCompleted\<close> value. Only the drag
  marker \<open>activeId\<close> is reset.
\<close>

theorem cross_segment_drag_unchanged:
  "find (\<lambda>i. item_id i = movedId) (items s) = Some moved \<Longrightarrow>
   find (\<lambda>i. item_id i = targetId) (items s) = Some target \<Longrightarrow>
   isCompleted moved \<noteq> isCompleted target \<Longrightarrow>
   onDragEnd movedId (Some targetId) s = (items s, s\<lparr>activeId := None\<rparr>)"
  by (simp add: onDragEnd_def Let_def split: option.splits)

theorem cross_segment_drag_unchanged_witness:
  "find (\<lambda>i. item_id i = ''a'') (items (guest_app [todo ''a'' False 0, todo ''b'' True 1]))
     = Some (todo ''a'' False 0)
   \<and> find (\<lambda>i. item_id i = ''b'') (items (guest_app [todo ''a'' False 0, todo ''b'' True 1]))
     = Some (todo ''b'' True 1)
   \<and> isCompleted (todo ''a'' False 0) \<noteq> isCompleted (todo ''b'' True 1)
   \<and> fst (onDragEnd ''a'' (Some ''b'') (guest_app [todo ''a'' False 0, todo ''b'' True 1]))
     = [todo ''a'' False 0, todo ''b'' True 1]"
proof -
  have a: "find (\<lambda>i. item_id i = ''a'') (items (guest_app [todo ''a'' False 0, todo ''b'' True 1]))
     = Some (todo ''a'' False 0)"
    by (simp add: guest_app_def todo_def)
  have b: "find (\<lambda>i. item_id i = ''b'') (items (guest_app [todo ''a'' False 0, todo ''b'' True 1]))
     = Some (todo ''b'' True 1)"
    by (simp add: guest_app_def todo_def)
  have c: "isCompleted (todo ''a'' False 0) \<noteq> isCompleted (todo ''b'' True 1)"
    by (simp add: todo_def)
  show ?thesis
    using a b c cross_segment_drag_unchanged [OF a b c]
    by (simp add: guest_app_def)
qed

section \<open>Blank text\<close>

lemma dropWhile_Nil_iff: "dropWhile P xs = [] \<longleftrightarrow> (\<forall>x\<in>set xs. P x)"
  by (induction xs) auto

lemma all_dropWhile_iff: "(\<forall>x\<in>set (dropWhile P xs). P x) \<longleftrightarrow> (\<forall>x\<in>set xs. P x)"
  by (induction xs) auto

lemma trim_empty_iff: "trim d = [] \<longleftrightarrow> list_all is_white_space d"
  by (simp add: trim_def dropWhile_Nil_iff all_dropWhile_iff list_all_iff)

text \<open>
  Claim C8. When the draft is empty or consists of white space only (equivalently, when
  it trims to the empty string), \<^verbatim>\<open>handleSubmit\<close> changes nothing at all: no item is
  created, the list, the guest blob and the requests sent stay as they were. When the
  edited text trims to empty, \<^verbatim>\<open>commitEdit\<close> only leaves edit mode: every item keeps its
  content and nothing is stored or sent.
\<close>

theorem blank_text_rejected:
  "(list_all is_white_space (draft s) \<or> trim (draft s) = [] \<longrightarrow> handleSubmit localId s = s)
   \<and> (list_all is_white_space (editingText s) \<or> trim (editingText s) = [] \<longrightarrow>
        fst (commitEdit ident s) = items s
        \<and> snd (commitEdit ident s) = s\<lparr>editingId := None\<rparr>
        \<and> map content (items (snd (commitEdit ident s))) = map content (items s)
        \<and> storage (snd (commitEdit ident s)) = storage s
        \<and> requests (snd (commitEdit ident s)) = requests s)"
  by (auto simp: trim_empty_iff handleSubmit_def commitEdit_def Let_def)

theorem blank_text_rejected_witness:
  "list_all is_white_space [0x20, 0x20, 0x20]
   \<and> handleSubmit ''n'' ((guest_app [todo ''a'' False 0])\<lparr>draft := [0x20, 0x20, 0x20]\<rparr>)
       = (guest_app [todo ''a'' False 0])\<lparr>draft := [0x20, 0x20, 0x20]\<rparr>
   \<and> trim [0x09, 0x3000] = []
   \<and> items (snd (commitEdit ''a'' ((guest_app [todo ''a'' False 0])\<lparr>editingText := [0x09, 0x3000]\<rparr>)))
       = [todo ''a'' False 0]"
proof -
  have w: "list_all is_white_space [0x20, 0x20, 0x20]"
    by (simp add: is_white_space_def)
  have t: "trim [0x09, 0x3000] = []"
    by (simp add: trim_def is_white_space_def)
  show ?thesis
    using w t
      blank_text_rejected [of "(guest_app [todo ''a'' False 0])\<lparr>draft := [0x20, 0x20, 0x20]\<rparr>" "''n''"]
      blank_text_rejected [of "(guest_app [todo ''a'' False 0])\<lparr>editingText := [0x09, 0x3000]\<rparr>" _ "''a''"]
    by (simp add: guest_app_def)
qed

section \<open>Adding an item\<close>

lemma insertIndexOf_props:
  "insertIndexOf xs \<le> length xs
   \<and> list_all (\<lambda>i. \<not> isCompleted i) (take (insertIndexOf xs) xs)
   \<and> (insertIndexOf xs < length xs \<longrightarrow> isCompleted (xs ! insertIndexOf xs))
   \<and> (list_all (\<lambda>i. \<not> isCompleted i) xs \<longrightarrow> insertIndexOf xs = length xs)"
proof -
  have a: "take (insertIndexOf xs) xs = takeWhile (\<lambda>i. \<not> isCompleted i) xs"
    by (simp add: insertIndexOf_takeWhile takeWhile_eq_take [symmetric])
  have b: "insertIndexOf xs < length xs \<longrightarrow> isCompleted (xs ! insertIndexOf xs)"
    using nth_length_takeWhile [of "\<lambda>i. \<not> isCompleted i" xs]
    by (simp add: insertIndexOf_takeWhile)
  have c: "list_all (\<lambda>i. \<not> isCompleted i) xs \<longrightarrow> insertIndexOf xs = length xs"
    by (simp add: insertIndexOf_takeWhile list_all_iff takeWhile_eq_all_conv [THEN iffD2])
  show ?thesis
    using b c by (auto simp: a insertIndexOf_le list_all_iff dest: set_takeWhileD)
qed

lemma unranked_splice_reindex:
  "map unranked (reindex (splice_in k new xs))
     = map unranked (take k xs) @ unranked new # map unranked (drop k xs)"
  by (simp add: map_unranked_reindex splice_in_def)

text \<open>
  Claim C10. For every list, the index \<^verbatim>\<open>handleSubmit\<close> inserts at lies within the list,
  every item before it is incomplete, the item at it (if any) is completed, and it is the
  length of the list when no item is completed: the new item goes immediately before the
  first completed item and never after a completed one. In the guest branch the published
  list is the old one with the new incomplete item spliced in there. In the authenticated
  branch the request carries \<open>completed = False\<close> and that index, and the callback splices
  the row the store returns for it into the list at the same index, with the flag of that
  row.
\<close>

theorem new_item_goes_before_first_completed:
  "insertIndexOf (items s) \<le> length (items s)
   \<and> list_all (\<lambda>i. \<not> isCompleted i) (take (insertIndexOf (items s)) (items s))
   \<and> (insertIndexOf (items s) < length (items s) \<longrightarrow>
         isCompleted (items s ! insertIndexOf (items s)))
   \<and> (list_all (\<lambda>i. \<not> isCompleted i) (items s) \<longrightarrow> insertIndexOf (items s) = length (items s))
   \<and> (trim (draft s) \<noteq> [] \<and> (session s = None \<or> \<not> hasSupabase s) \<longrightarrow>
         map unranked (items (handleSubmit localId s))
           = map unranked (take (insertIndexOf (items s)) (items s))
             @ (localId, trim (draft s), False)
             # map unranked (drop (insertIndexOf (items s)) (items s)))
   \<and> (trim (draft s) \<noteq> [] \<and> session s = Some uid \<and> hasSupabase s \<longrightarrow>
         handleSubmit localId s
           = send (Insert [\<lparr>p_id = None, p_title = trim (draft s), p_completed = False,
                            p_position = int (insertIndexOf (items s)), p_user_id = uid\<rparr>]) s)
   \<and> map unranked (items (handleSubmit_then s (Inr (inserted # others)) s'))
           = map unranked (take (insertIndexOf (items s)) (items s))
             @ (row_id inserted, title inserted, completed inserted)
             # map unranked (drop (insertIndexOf (items s)) (items s))"
proof -
  have guest: "trim (draft s) \<noteq> [] \<and> (session s = None \<or> \<not> hasSupabase s) \<longrightarrow>
         map unranked (items (handleSubmit localId s))
           = map unranked (take (insertIndexOf (items s)) (items s))
             @ (localId, trim (draft s), False)
             # map unranked (drop (insertIndexOf (items s)) (items s))"
    by (auto simp: handleSubmit_def Let_def items_syncAll unranked_splice_reindex
        split: option.splits) (simp_all add: unranked_def)
  have auth: "trim (draft s) \<noteq> [] \<and> session s = Some uid \<and> hasSupabase s \<longrightarrow>
         handleSubmit localId s
           = send (Insert [\<lparr>p_id = None, p_title = trim (draft s), p_completed = False,
                            p_position = int (insertIndexOf (items s)), p_user_id = uid\<rparr>]) s"
    by (simp add: handleSubmit_def Let_def)
  have reply: "map unranked (items (handleSubmit_then s (Inr (inserted # others)) s'))
           = map unranked (take (insertIndexOf (items s)) (items s))
             @ (row_id inserted, title inserted, completed inserted)
             # map unranked (drop (insertIndexOf (items s)) (items s))"
    by (simp add: handleSubmit_then_def Let_def items_syncAll unranked_splice_reindex)
       (simp add: unranked_def)
  show ?thesis
    using insertIndexOf_props [of "items s"] guest auth reply by blast
qed


theorem new_item_goes_before_first_completed_witness:
  "insertIndexOf [todo ''a'' False 0, todo ''b'' True 1] = 1
   \<and> isCompleted ([todo ''a'' False 0, todo ''b'' True 1] ! 1)
   \<and> map unranked (items (handleSubmit ''n''
         ((guest_app [todo ''a'' False 0, todo ''b'' True 1])\<lparr>draft := [0x78]\<rparr>)))
       = [(''a'', [0x74], False), (''n'', [0x78], False), (''b'', [0x74], True)]
   \<and> requests (handleSubmit ''n''
         ((user_app ''u'' [todo ''a'' False 0, todo ''b'' True 1])\<lparr>draft := [0x78]\<rparr>))
       = [Insert [\<lparr>p_id = None, p_title = [0x78], p_completed = False, p_position = 1,
                   p_user_id = ''u''\<rparr>]]
   \<and> insertIndexOf [todo ''a'' False 0] = 1"
proof -
  have t: "trim [0x78] = [0x78]"
    by (simp add: trim_def is_white_space_def)
  have k: "insertIndexOf [todo ''a'' False 0, todo ''b'' True 1] = 1"
          "insertIndexOf [todo ''a'' False 0] = 1"
    by (simp_all add: insertIndexOf_def todo_def)
  have g: "map unranked (items (handleSubmit ''n''
         ((guest_app [todo ''a'' False 0, todo ''b'' True 1])\<lparr>draft := [0x78]\<rparr>)))
       = [(''a'', [0x74], False), (''n'', [0x78], False), (''b'', [0x74], True)]"
    using new_item_goes_before_first_completed
            [of "(guest_app [todo ''a'' False 0, todo ''b'' True 1])\<lparr>draft := [0x78]\<rparr>" "''n''"]
    by (simp add: t guest_app_def unranked_def todo_def insertIndexOf_def)
  have u: "requests (handleSubmit ''n''
         ((user_app ''u'' [todo ''a'' False 0, todo ''b'' True 1])\<lparr>draft := [0x78]\<rparr>))
       = [Insert [\<lparr>p_id = None, p_title = [0x78], p_completed = False, p_position = 1,
                   p_user_id = ''u''\<rparr>]]"
    using new_item_goes_before_first_completed
            [of "(user_app ''u'' [todo ''a'' False 0, todo ''b'' True 1])\<lparr>draft := [0x78]\<rparr>"
                "''n''" "''u''"]
    by (simp add: t guest_app_def user_app_def send_def todo_def insertIndexOf_def)
  show ?thesis
    using g u k by (simp add: todo_def)
qed

section \<open>What a drag within one segment computes\<close>

lemma indexOf_map_item_id:
  "x \<in> set seg \<Longrightarrow>
   indexOf (map item_id seg) (item_id x)
     = Some (length (takeWhile (\<lambda>i. item_id i \<noteq> item_id x) seg))"
  by (auto simp: indexOf_def findIndex_takeWhile takeWhile_map comp_def)

lemma find_item_id:
  "find (\<lambda>i. item_id i = k) xs = Some a \<Longrightarrow> a \<in> set xs \<and> item_id a = k"
  by (auto simp: find_Some_iff)

lemma nextItems_lookup:
  assumes "distinct (map item_id prev)" "set ys \<subseteq> set prev" "set zs \<subseteq> set prev"
  shows "List.map_filter (map_of (rev (map (\<lambda>i. (item_id i, i)) prev)))
           (map item_id ys @ map item_id zs) = ys @ zs"
  using map_filter_byId [OF assms(1), of "ys @ zs"] assms(2,3) by simp

lemma onDragEnd_same_segment:
  assumes d: "distinct (map item_id (items s))"
    and ne: "active \<noteq> overId"
    and fa: "find (\<lambda>i. item_id i = active) (items s) = Some a"
    and fb: "find (\<lambda>i. item_id i = overId) (items s) = Some b"
    and same: "isCompleted a = isCompleted b"
  shows "onDragEnd active (Some overId) s =
     (let actives = filter (\<lambda>i. \<not> isCompleted i) (items s);
          completed = filter (\<lambda>i. isCompleted i) (items s);
          seg = (if isCompleted a then completed else actives);
          fromIndex = length (takeWhile (\<lambda>i. item_id i \<noteq> active) seg);
          toIndex = length (takeWhile (\<lambda>i. item_id i \<noteq> overId) seg);
          nextItems = (if isCompleted a then actives @ arrayMove completed fromIndex toIndex
                       else arrayMove actives fromIndex toIndex @ completed)
      in (nextItems, syncAll (session s) nextItems (s\<lparr>activeId := None\<rparr>)))"
proof -
  let ?A = "filter (\<lambda>i. \<not> isCompleted i) (items s)"
  let ?C = "filter (\<lambda>i. isCompleted i) (items s)"
  let ?seg = "if isCompleted a then ?C else ?A"
  let ?f = "length (takeWhile (\<lambda>i. item_id i \<noteq> active) ?seg)"
  let ?t = "length (takeWhile (\<lambda>i. item_id i \<noteq> overId) ?seg)"
  from fa have a: "a \<in> set (items s)" "item_id a = active" by (auto dest: find_item_id)
  from fb have b: "b \<in> set (items s)" "item_id b = overId" by (auto dest: find_item_id)
  have aseg: "a \<in> set ?seg" using a by simp
  have bseg: "b \<in> set ?seg" using b same by simp
  have ia: "indexOf (map item_id ?seg) active = Some ?f"
    using indexOf_map_item_id [OF aseg] a(2) by simp
  have ib: "indexOf (map item_id ?seg) overId = Some ?t"
    using indexOf_map_item_id [OF bseg] b(2) by simp
  have lookA: "List.map_filter (map_of (rev (map (\<lambda>i. (item_id i, i)) (items s))))
           (map item_id (arrayMove ?A ?f ?t) @ map item_id ?C) = arrayMove ?A ?f ?t @ ?C"
    using set_arrayMove [of ?A ?f ?t] by (intro nextItems_lookup [OF d]) auto
  have lookC: "List.map_filter (map_of (rev (map (\<lambda>i. (item_id i, i)) (items s))))
           (map item_id ?A @ map item_id (arrayMove ?C ?f ?t)) = ?A @ arrayMove ?C ?f ?t"
    using set_arrayMove [of ?C ?f ?t] by (intro nextItems_lookup [OF d]) auto
  show ?thesis
  proof (cases "isCompleted a")
    case True
    then show ?thesis
      using ne fa fb same ia ib lookC
      by (simp add: onDragEnd_def Let_def arrayMove_map)
  next
    case False
    then show ?thesis
      using ne fa fb same ia ib lookA
      by (simp add: onDragEnd_def Let_def arrayMove_map)
  qed
qed

lemma onDragEnd_other_cases:
  "over = None \<or> over = Some active
   \<or> (\<exists>overId. over = Some overId \<and>
         (find (\<lambda>i. item_id i = active) (items s) = None
          \<or> find (\<lambda>i. item_id i = overId) (items s) = None
          \<or> (\<exists>a b. find (\<lambda>i. item_id i = active) (items s) = Some a
                 \<and> find (\<lambda>i. item_id i = overId) (items s) = Some b
                 \<and> isCompleted a \<noteq> isCompleted b)))
   \<Longrightarrow> onDragEnd active over s = (items s, s\<lparr>activeId := None\<rparr>)"
  by (auto simp: onDragEnd_def Let_def split: option.splits)

section \<open>What the mutations publish and what their updaters return\<close>

lemma handleSubmit_normalized:
  assumes "normalized (items s)"
  shows "normalized (items (handleSubmit localId s))"
proof -
  have "normalized (reindex (splice_in (insertIndexOf (items s)) new (items s)))" for new
    using assms by (simp add: normalized_def partitioned_splice partitioned_reindex dense_reindex)
  then show ?thesis
    using assms
    by (simp add: handleSubmit_def Let_def items_syncAll send_def split: option.splits)
qed

lemma handleSubmit_then_normalized:
  assumes "normalized (items c)"
  shows "normalized (items (handleSubmit_then c (Inr (inserted # others)) s))"
  using assms
  by (simp add: handleSubmit_then_def Let_def items_syncAll normalized_def
      partitioned_splice partitioned_reindex dense_reindex)

lemma handleToggle_normalized:
  "normalized (items (snd (handleToggle ident c s)))
   \<and> reindex (fst (handleToggle ident c s)) = items (snd (handleToggle ident c s))"
  by (simp add: handleToggle_def Let_def items_syncAll normalized_reindex partitioned_split)

lemma handleDelete_normalized:
  assumes "normalized (items s)"
  shows "normalized (items (snd (handleDelete ident s)))
   \<and> reindex (fst (handleDelete ident s)) = items (snd (handleDelete ident s))"
  using assms
  by (simp add: handleDelete_def Let_def items_syncAll partitioned_filter
      normalized_def partitioned_reindex dense_reindex)

lemma partitioned_edit:
  "partitioned xs \<Longrightarrow>
   partitioned (map (\<lambda>it. if item_id it = ident then it\<lparr>content := text\<rparr> else it) xs)"
  by (rule partitioned_map_cong [THEN iffD2, rotated]) (simp_all add: comp_def if_distrib)

lemma commitEdit_normalized:
  assumes "normalized (items s)"
  shows "normalized (items (snd (commitEdit ident s)))
   \<and> reindex (fst (commitEdit ident s)) = items (snd (commitEdit ident s))"
  using assms
  by (simp add: commitEdit_def Let_def items_syncAll partitioned_edit
      normalized_def reindex_dense partitioned_reindex dense_reindex)

lemma onDragEnd_normalized:
  assumes n: "normalized (items s)" and d: "distinct (map item_id (items s))"
  shows "normalized (items (snd (onDragEnd active over s)))
   \<and> reindex (fst (onDragEnd active over s)) = items (snd (onDragEnd active over s))"
proof -
  let ?A = "filter (\<lambda>i. \<not> isCompleted i) (items s)"
  let ?C = "filter (\<lambda>i. isCompleted i) (items s)"
  have same: "normalized (items (s\<lparr>activeId := None\<rparr>))
              \<and> reindex (items s) = items (s\<lparr>activeId := None\<rparr>)"
    using n by (simp add: normalized_def reindex_dense)
  have pA: "partitioned (arrayMove ?A f t @ ?C)" for f t
    using set_arrayMove [of ?A f t] by (intro partitioned_append) auto
  have pC: "partitioned (?A @ arrayMove ?C f t)" for f t
    using set_arrayMove [of ?C f t] by (intro partitioned_append) auto
  consider (other) "onDragEnd active over s = (items s, s\<lparr>activeId := None\<rparr>)"
    | (move) overId a b where "over = Some overId" "active \<noteq> overId"
        "find (\<lambda>i. item_id i = active) (items s) = Some a"
        "find (\<lambda>i. item_id i = overId) (items s) = Some b"
        "isCompleted a = isCompleted b"
    using onDragEnd_other_cases [of over active s] by (cases over) fastforce+
  then show ?thesis
  proof cases
    case other
    then show ?thesis using same by simp
  next
    case move
    show ?thesis
      unfolding move(1) onDragEnd_same_segment [OF d move(2-5)]
      by (simp add: Let_def items_syncAll normalized_reindex pA pC)
  qed
qed

text \<open>
  Starting from a normalized list, each mutating operation hands \<^verbatim>\<open>syncAll\<close> a list that
  is partitioned, and \<^verbatim>\<open>syncAll\<close> reindexes it before passing it to \<^verbatim>\<open>setItems\<close> and
  writing it through: that list is normalized, for add (guest branch, and the callback of
  the authenticated insert, whose closure holds the list \<^verbatim>\<open>handleSubmit\<close> saw), toggle,
  edit, delete and drag. The list a state updater returns is the same sequence of items,
  not yet reindexed. Item ids are taken to be pairwise different for the drag, which
  rebuilds the list by looking items up by id.
\<close>

lemma published_list_normalized:
  assumes "normalized (items s)"
  shows "normalized (items (handleSubmit localId s))
   \<and> normalized (items (handleSubmit_then s (Inr (inserted # others)) s'))
   \<and> normalized (items (snd (handleToggle ident c s)))
   \<and> reindex (fst (handleToggle ident c s)) = items (snd (handleToggle ident c s))
   \<and> normalized (items (snd (commitEdit ident s)))
   \<and> reindex (fst (commitEdit ident s)) = items (snd (commitEdit ident s))
   \<and> normalized (items (snd (handleDelete ident s)))
   \<and> reindex (fst (handleDelete ident s)) = items (snd (handleDelete ident s))
   \<and> (distinct (map item_id (items s)) \<longrightarrow>
        normalized (items (snd (onDragEnd active over s)))
        \<and> reindex (fst (onDragEnd active over s)) = items (snd (onDragEnd active over s)))"
  using handleSubmit_normalized [OF assms] handleSubmit_then_normalized [OF assms]
    handleToggle_normalized commitEdit_normalized [OF assms] handleDelete_normalized [OF assms]
    onDragEnd_normalized [OF assms]
  by simp

text \<open>
  Claim C1 says that every mutating operation turns a normalized list into a normalized
  one, positions \<open>0, 1, \<dots>, n - 1\<close> included. \<^verbatim>\<open>syncAll\<close> reindexes and calls
  \<^verbatim>\<open>setItems\<close> with the reindexed list, but the state updaters of \<^verbatim>\<open>handleToggle\<close> and
  \<^verbatim>\<open>handleDelete\<close> then return their own \<^verbatim>\<open>nextItems\<close>, which still carries the old
  positions, and that return value is the list the updater leaves in state. From the
  normalized list \<open>a, b, c\<close> with \<open>c\<close> completed: toggling \<open>a\<close> returns \<open>b, a, c\<close> with
  positions \<open>1, 0, 2\<close>, and deleting \<open>a\<close> returns \<open>b, c\<close> with positions \<open>1, 2\<close>. Neither
  is normalized, while the lists \<^verbatim>\<open>syncAll\<close> was given come out with positions
  \<open>0, 1, 2\<close> and \<open>0, 1\<close>.
\<close>

theorem updater_returns_stale_positions:
  "normalized (items (guest_app [todo ''a'' False 0, todo ''b'' False 1, todo ''c'' True 2]))
   \<and> map position (fst (handleToggle ''a'' True
         (guest_app [todo ''a'' False 0, todo ''b'' False 1, todo ''c'' True 2])))
       = [1, 0, 2]
   \<and> \<not> normalized (fst (handleToggle ''a'' True
         (guest_app [todo ''a'' False 0, todo ''b'' False 1, todo ''c'' True 2])))
   \<and> map position (items (snd (handleToggle ''a'' True
         (guest_app [todo ''a'' False 0, todo ''b'' False 1, todo ''c'' True 2]))))
       = [0, 1, 2]
   \<and> map position (fst (handleDelete ''a''
         (guest_app [todo ''a'' False 0, todo ''b'' False 1, todo ''c'' True 2])))
       = [1, 2]
   \<and> \<not> normalized (fst (handleDelete ''a''
         (guest_app [todo ''a'' False 0, todo ''b'' False 1, todo ''c'' True 2])))
   \<and> map position (items (snd (handleDelete ''a''
         (guest_app [todo ''a'' False 0, todo ''b'' False 1, todo ''c'' True 2]))))
       = [0, 1]"
  by (simp add: guest_app_def todo_def normalized_def dense_def handleToggle_def
      handleDelete_def Let_def syncAll_def reindex_def persistGuestItems_def)

section \<open>Dragging within a segment\<close>







lemma same_id_same_item:
  "distinct (map item_id xs) \<Longrightarrow> x \<in> set xs \<Longrightarrow> y \<in> set xs \<Longrightarrow>
   item_id x = item_id y \<Longrightarrow> x = y"
  by (auto simp: distinct_map dest: inj_onD)





section \<open>Toggling\<close>

lemma distinct_Cons_ids:
  "distinct (map item_id (y # ys)) \<Longrightarrow> \<forall>i\<in>set ys. item_id i \<noteq> item_id y"
  by (metis distinct.simps(2) imageI list.simps(9) set_map)

lemma filter_other_ids:
  "\<forall>i\<in>set xs. item_id i \<noteq> k \<Longrightarrow>
   filter (\<lambda>i. P i \<and> item_id i \<noteq> k) xs = filter P xs"
  by (rule filter_cong) auto

lemma toggle_other_ids:
  "\<forall>i\<in>set xs. item_id i \<noteq> k \<Longrightarrow>
   map (\<lambda>it. if item_id it \<noteq> k then it else it\<lparr>isCompleted := c\<rparr>) xs = xs"
  by (induction xs) auto

lemma toggle_to_completed_segments:
  assumes "partitioned xs" "distinct (map item_id xs)" "x \<in> set xs" "\<not> isCompleted x"
  shows "filter (\<lambda>i. isCompleted i)
           (map (\<lambda>it. if item_id it \<noteq> item_id x then it else it\<lparr>isCompleted := True\<rparr>) xs)
         = x\<lparr>isCompleted := True\<rparr> # filter (\<lambda>i. isCompleted i) xs
     \<and> filter (\<lambda>i. \<not> isCompleted i)
           (map (\<lambda>it. if item_id it \<noteq> item_id x then it else it\<lparr>isCompleted := True\<rparr>) xs)
         = filter (\<lambda>i. item_id i \<noteq> item_id x) (filter (\<lambda>i. \<not> isCompleted i) xs)"
  using assms
proof (induction xs)
  case Nil
  then show ?case by simp
next
  case (Cons y ys)
  show ?case
  proof (cases "y = x")
    case True
    with Cons.prems(2) have "\<forall>i\<in>set ys. item_id i \<noteq> item_id x"
      by (blast dest: distinct_Cons_ids)
    then show ?thesis
      using True Cons.prems(4) by (simp add: toggle_other_ids filter_other_ids)
  next
    case False
    with Cons.prems have xin: "x \<in> set ys" and idne: "item_id y \<noteq> item_id x"
      by auto
    have ny: "\<not> isCompleted y"
      using Cons.prems(1,4) xin by (auto simp: list_all_iff)
    then have "partitioned ys"
      using Cons.prems(1) by simp
    with Cons.IH xin Cons.prems(2,4) idne ny show ?thesis
      by simp
  qed
qed

lemma toggle_to_active_segments:
  assumes "partitioned ys" "distinct (map item_id ys)" "y \<in> set ys" "isCompleted y"
  shows "filter (\<lambda>i. \<not> isCompleted i)
           (map (\<lambda>it. if item_id it \<noteq> item_id y then it else it\<lparr>isCompleted := False\<rparr>) ys)
         = filter (\<lambda>i. \<not> isCompleted i) ys @ [y\<lparr>isCompleted := False\<rparr>]
     \<and> filter (\<lambda>i. isCompleted i)
           (map (\<lambda>it. if item_id it \<noteq> item_id y then it else it\<lparr>isCompleted := False\<rparr>) ys)
         = filter (\<lambda>i. item_id i \<noteq> item_id y) (filter (\<lambda>i. isCompleted i) ys)"
  using assms
proof (induction ys)
  case Nil
  then show ?case by simp
next
  case (Cons z zs)
  show ?case
  proof (cases "z = y")
    case True
    with Cons.prems(2) have other: "\<forall>i\<in>set zs. item_id i \<noteq> item_id y"
      by (blast dest: distinct_Cons_ids)
    from True Cons.prems(1,4) have allc: "\<forall>i\<in>set zs. isCompleted i"
      by (simp add: list_all_iff)
    have "filter (\<lambda>i. \<not> isCompleted i) zs = []"
      using allc by (simp add: filter_empty_conv)
    moreover have "filter (\<lambda>i. item_id i \<noteq> item_id y) (filter (\<lambda>i. isCompleted i) zs)
                     = filter (\<lambda>i. isCompleted i) zs"
      using other by (simp add: filter_other_ids)
    ultimately show ?thesis
      using True Cons.prems(4) other by (simp add: toggle_other_ids)
  next
    case False
    with Cons.prems have yin: "y \<in> set zs" and idne: "item_id z \<noteq> item_id y"
      by auto
    have "partitioned zs"
      using Cons.prems(1) by (cases "isCompleted z") (auto simp: list_all_iff partitioned_all_completed)
    with Cons.IH yin Cons.prems(2,4) idne show ?thesis
      by simp
  qed
qed


lemma distinct_ids_split:
  assumes "distinct (map item_id m)"
  shows "distinct (map item_id (filter (\<lambda>i. \<not> isCompleted i) m @ filter (\<lambda>i. isCompleted i) m))"
proof -
  from assms have dm: "distinct m" and inj: "inj_on item_id (set m)"
    by (simp_all add: distinct_map)
  have "inj_on item_id (set (filter (\<lambda>i. \<not> isCompleted i) m @ filter (\<lambda>i. isCompleted i) m))"
    by (rule inj_on_subset [OF inj]) auto
  moreover have "distinct (filter (\<lambda>i. \<not> isCompleted i) m @ filter (\<lambda>i. isCompleted i) m)"
    using dm by auto
  ultimately show ?thesis
    by (simp only: distinct_map simp_thms)
qed

lemma toggle_keeps_ids:
  "map item_id (map (\<lambda>it. if item_id it \<noteq> k then it else it\<lparr>isCompleted := c\<rparr>) xs)
     = map item_id xs"
  by (induction xs) auto

lemma handleToggle_lists:
  "fst (handleToggle k c s)
     = filter (\<lambda>i. \<not> isCompleted i)
         (map (\<lambda>it. if item_id it \<noteq> k then it else it\<lparr>isCompleted := c\<rparr>) (items s))
       @ filter (\<lambda>i. isCompleted i)
         (map (\<lambda>it. if item_id it \<noteq> k then it else it\<lparr>isCompleted := c\<rparr>) (items s))"
  "items (snd (handleToggle k c s)) = reindex (fst (handleToggle k c s))"
  by (simp_all add: handleToggle_def Let_def items_syncAll)

lemma segments_of_split:
  "active_segment (filter (\<lambda>i. \<not> isCompleted i) m @ filter (\<lambda>i. isCompleted i) m)
     = map unranked (filter (\<lambda>i. \<not> isCompleted i) m)"
  "completed_segment (filter (\<lambda>i. \<not> isCompleted i) m @ filter (\<lambda>i. isCompleted i) m)
     = map unranked (filter (\<lambda>i. isCompleted i) m)"
  by (simp_all add: active_segment_def completed_segment_def)

lemma segments_cong:
  assumes "map unranked xs = map unranked ys"
  shows "active_segment xs = active_segment ys" "completed_segment xs = completed_segment ys"
  using assms by (simp_all add: active_segment_alt completed_segment_alt)

lemma ids_cong:
  assumes "map unranked xs = map unranked ys"
  shows "map item_id xs = map item_id ys"
proof -
  have "map fst (map unranked xs) = map fst (map unranked ys)"
    using assms by simp
  then show ?thesis by (simp add: unranked_def comp_def)
qed

lemma unranked_filter_ids:
  "map unranked (filter (\<lambda>i. item_id i \<noteq> k) xs)
     = filter (\<lambda>u. fst u \<noteq> k) (map unranked xs)"
  by (simp add: filter_map comp_def unranked_def)


lemma toggle_on_then_off:
  assumes p: "partitioned xs" and d: "distinct (map item_id xs)"
    and x: "x \<in> set xs" and a: "\<not> isCompleted x"
    and on: "items s = xs"
  shows "completed_segment (items (snd (handleToggle (item_id x) True s)))
           = (item_id x, content x, True) # completed_segment xs"
    and "active_segment (items (snd (handleToggle (item_id x) True s)))
           = filter (\<lambda>u. fst u \<noteq> item_id x) (active_segment xs)"
    and "map unranked (items t) = map unranked (items (snd (handleToggle (item_id x) True s)))
         \<Longrightarrow> active_segment (items (snd (handleToggle (item_id x) False t)))
               = filter (\<lambda>u. fst u \<noteq> item_id x) (active_segment xs)
                 @ [(item_id x, content x, False)]
             \<and> completed_segment (items (snd (handleToggle (item_id x) False t)))
               = completed_segment xs"
proof -
  let ?k = "item_id x"
  let ?L = "fst (handleToggle ?k True s)"
  let ?on = "\<lambda>it. if item_id it \<noteq> ?k then it else it\<lparr>isCompleted := True\<rparr>"
  let ?off = "\<lambda>it. if item_id it \<noteq> ?k then it else it\<lparr>isCompleted := False\<rparr>"
  note A = toggle_to_completed_segments [OF p d x a]
  have "completed_segment ?L = map unranked (filter (\<lambda>i. isCompleted i) (map ?on (items s)))"
    by (simp only: handleToggle_lists(1) segments_of_split(2))
  also have "\<dots> = map unranked (x\<lparr>isCompleted := True\<rparr> # filter (\<lambda>i. isCompleted i) xs)"
    by (simp only: on A [THEN conjunct1])
  also have "\<dots> = (?k, content x, True) # completed_segment xs"
    by (simp add: completed_segment_def unranked_def)
  finally have cs: "completed_segment ?L = (?k, content x, True) # completed_segment xs" .
  have "active_segment ?L = map unranked (filter (\<lambda>i. \<not> isCompleted i) (map ?on (items s)))"
    by (simp only: handleToggle_lists(1) segments_of_split(1))
  also have "\<dots> = map unranked (filter (\<lambda>i. item_id i \<noteq> ?k)
                                     (filter (\<lambda>i. \<not> isCompleted i) xs))"
    by (simp only: on A [THEN conjunct2])
  also have "\<dots> = filter (\<lambda>u. fst u \<noteq> ?k) (active_segment xs)"
    by (simp only: unranked_filter_ids active_segment_def)
  finally have as: "active_segment ?L = filter (\<lambda>u. fst u \<noteq> ?k) (active_segment xs)" .
  show c1: "completed_segment (items (snd (handleToggle ?k True s)))
           = (?k, content x, True) # completed_segment xs"
    by (simp only: handleToggle_lists(2) completed_segment_reindex cs)
  show a1: "active_segment (items (snd (handleToggle ?k True s)))
           = filter (\<lambda>u. fst u \<noteq> ?k) (active_segment xs)"
    by (simp only: handleToggle_lists(2) active_segment_reindex as)
  assume eq: "map unranked (items t) = map unranked (items (snd (handleToggle ?k True s)))"
  let ?ys = "items t"
  have eqL: "map unranked ?ys = map unranked ?L"
    using eq by (simp only: handleToggle_lists(2) map_unranked_reindex)
  have pL: "partitioned ?L"
    by (simp only: handleToggle_lists partitioned_split)
  have py: "partitioned ?ys"
    using partitioned_cong [OF eqL] pL by simp
  have "distinct (map item_id ?L)"
    using d by (simp only: handleToggle_lists) (simp only: distinct_ids_split toggle_keeps_ids on)
  then have dy: "distinct (map item_id ?ys)"
    by (simp only: ids_cong [OF eqL])
  have "(?k, content x, True) \<in> set (completed_segment ?ys)"
    by (simp only: segments_cong(2) [OF eqL] cs) simp
  then obtain y where y: "y \<in> set ?ys" "isCompleted y" "unranked y = (?k, content x, True)"
    by (auto simp: completed_segment_def)
  then have yk: "item_id y = ?k" and yc: "content y = content x"
    by (simp_all add: unranked_def)
  note B = toggle_to_active_segments [OF py dy y(1,2), unfolded yk]
  have "active_segment (items (snd (handleToggle ?k False t)))
          = map unranked (filter (\<lambda>i. \<not> isCompleted i) (map ?off ?ys))"
    by (simp only: handleToggle_lists active_segment_reindex segments_of_split(1))
  also have "\<dots> = map unranked (filter (\<lambda>i. \<not> isCompleted i) ?ys @ [y\<lparr>isCompleted := False\<rparr>])"
    by (simp only: B [THEN conjunct1])
  also have "\<dots> = active_segment ?ys @ [(?k, content x, False)]"
    by (simp add: active_segment_def unranked_def yk yc)
  finally have act: "active_segment (items (snd (handleToggle ?k False t)))
               = active_segment ?ys @ [(?k, content x, False)]" .
  have "completed_segment (items (snd (handleToggle ?k False t)))
          = map unranked (filter (\<lambda>i. isCompleted i) (map ?off ?ys))"
    by (simp only: handleToggle_lists completed_segment_reindex segments_of_split(2))
  also have "\<dots> = map unranked (filter (\<lambda>i. item_id i \<noteq> ?k) (filter (\<lambda>i. isCompleted i) ?ys))"
    by (simp only: B [THEN conjunct2])
  also have "\<dots> = filter (\<lambda>u. fst u \<noteq> ?k) (completed_segment ?ys)"
    by (simp only: unranked_filter_ids completed_segment_def)
  finally have com: "completed_segment (items (snd (handleToggle ?k False t)))
               = filter (\<lambda>u. fst u \<noteq> ?k) (completed_segment ?ys)" .
  have "\<And>i. i \<in> set xs \<Longrightarrow> isCompleted i \<Longrightarrow> item_id i \<noteq> ?k"
    using same_id_same_item [OF d _ x] a by auto
  then have "filter (\<lambda>i. isCompleted i \<and> item_id i \<noteq> ?k) xs = filter (\<lambda>i. isCompleted i) xs"
    by (intro filter_cong) auto
  then have "filter (\<lambda>u. fst u \<noteq> ?k) (completed_segment xs) = completed_segment xs"
    by (simp add: completed_segment_def unranked_def filter_map comp_def)
  then have com': "filter (\<lambda>u. fst u \<noteq> ?k) (completed_segment ?ys) = completed_segment xs"
    by (simp only: segments_cong(2) [OF eqL] cs) simp
  show "active_segment (items (snd (handleToggle ?k False t)))
               = filter (\<lambda>u. fst u \<noteq> ?k) (active_segment xs) @ [(?k, content x, False)]
             \<and> completed_segment (items (snd (handleToggle ?k False t)))
               = completed_segment xs"
    by (simp only: act com com' segments_cong(1) [OF eqL] as simp_thms)
qed

text \<open>
  Claim C4 says that an active item toggled to completed becomes the last element of the
  completed segment. \<^verbatim>\<open>handleToggle\<close> filters the updated list in place, so the item
  stays ahead of the items that were completed before it: with \<open>a\<close> active and \<open>b\<close>
  completed, toggling \<open>a\<close> gives the completed segment \<open>a, b\<close>, whose last element is
  \<open>b\<close>.
\<close>

theorem toggle_to_completed_not_last_counterexample:
  "normalized (items (guest_app [todo ''a'' False 0, todo ''b'' True 1]))
   \<and> \<not> isCompleted (todo ''a'' False 0)
   \<and> completed_segment
        (items (snd (handleToggle ''a'' True (guest_app [todo ''a'' False 0, todo ''b'' True 1]))))
       = [(''a'', [0x74], True), (''b'', [0x74], True)]
   \<and> last (completed_segment
        (items (snd (handleToggle ''a'' True (guest_app [todo ''a'' False 0, todo ''b'' True 1])))))
       \<noteq> (''a'', [0x74], True)"
  by (simp add: guest_app_def todo_def normalized_def dense_def handleToggle_def Let_def
      syncAll_def reindex_def persistGuestItems_def completed_segment_def unranked_def)

text \<open>
  Claim C4, amended. In a partitioned list with pairwise different ids, toggling an active
  item to completed makes it the first element of the completed segment, in front of the
  items completed before, takes it out of the active segment, and the list produced is
  normalized. Toggling it back, from a list that is the produced one up to positions,
  makes it the last element of the active segment, restores the completed segment, and
  again produces a normalized list.
\<close>

theorem toggle_moves_item_between_segments:
  assumes "partitioned (items s)" and "distinct (map item_id (items s))"
    and "x \<in> set (items s)" and "\<not> isCompleted x"
  shows "completed_segment (items (snd (handleToggle (item_id x) True s)))
           = (item_id x, content x, True) # completed_segment (items s)
     \<and> active_segment (items (snd (handleToggle (item_id x) True s)))
           = filter (\<lambda>u. fst u \<noteq> item_id x) (active_segment (items s))
     \<and> normalized (items (snd (handleToggle (item_id x) True s)))
     \<and> (\<forall>t. map unranked (items t)
                = map unranked (items (snd (handleToggle (item_id x) True s))) \<longrightarrow>
            active_segment (items (snd (handleToggle (item_id x) False t)))
              = filter (\<lambda>u. fst u \<noteq> item_id x) (active_segment (items s))
                @ [(item_id x, content x, False)]
            \<and> completed_segment (items (snd (handleToggle (item_id x) False t)))
              = completed_segment (items s)
            \<and> normalized (items (snd (handleToggle (item_id x) False t))))"
  using toggle_on_then_off [OF assms refl] handleToggle_normalized
  by (simp only: simp_thms) blast

theorem toggle_moves_item_between_segments_witness:
  "partitioned (items (guest_app [todo ''a'' False 0, todo ''c'' False 1, todo ''b'' True 2]))
   \<and> distinct (map item_id
        (items (guest_app [todo ''a'' False 0, todo ''c'' False 1, todo ''b'' True 2])))
   \<and> todo ''a'' False 0
        \<in> set (items (guest_app [todo ''a'' False 0, todo ''c'' False 1, todo ''b'' True 2]))
   \<and> \<not> isCompleted (todo ''a'' False 0)
   \<and> completed_segment (items (snd (handleToggle ''a'' True
        (guest_app [todo ''a'' False 0, todo ''c'' False 1, todo ''b'' True 2]))))
       = [(''a'', [0x74], True), (''b'', [0x74], True)]
   \<and> active_segment (items (snd (handleToggle ''a'' False (snd (handleToggle ''a'' True
        (guest_app [todo ''a'' False 0, todo ''c'' False 1, todo ''b'' True 2]))))))
       = [(''c'', [0x74], False), (''a'', [0x74], False)]"
proof -
  let ?s = "guest_app [todo ''a'' False 0, todo ''c'' False 1, todo ''b'' True 2]"
  have p: "partitioned (items ?s)"
    by (simp add: guest_app_def todo_def)
  have d: "distinct (map item_id (items ?s))"
    by (simp add: guest_app_def todo_def)
  have x: "todo ''a'' False 0 \<in> set (items ?s)"
    by (simp add: guest_app_def)
  have a: "\<not> isCompleted (todo ''a'' False 0)"
    by (simp add: todo_def)
  have k: "item_id (todo ''a'' False 0) = ''a''" "content (todo ''a'' False 0) = [0x74]"
    by (simp_all add: todo_def)
  have segs: "completed_segment (items ?s) = [(''b'', [0x74], True)]"
    "active_segment (items ?s) = [(''a'', [0x74], False), (''c'', [0x74], False)]"
    by (simp_all add: guest_app_def todo_def completed_segment_def active_segment_def
        unranked_def)
  note T = toggle_moves_item_between_segments [OF p d x a, unfolded k segs]
  from T have c: "completed_segment (items (snd (handleToggle ''a'' True ?s)))
       = [(''a'', [0x74], True), (''b'', [0x74], True)]"
    by simp
  from T [THEN conjunct2, THEN conjunct2, THEN conjunct2, THEN spec,
          of "snd (handleToggle ''a'' True ?s)"]
  have b: "active_segment (items (snd (handleToggle ''a'' False (snd (handleToggle ''a'' True ?s)))))
       = [(''c'', [0x74], False), (''a'', [0x74], False)]"
    by simp
  show ?thesis
    using p d x a c b by (simp only: simp_thms)
qed

section \<open>The rows of the bulk insert\<close>

lemma length_orderByCompletion: "length (orderByCompletion xs) = length xs"
  using sum_length_filter_compl [of "\<lambda>i. \<not> isCompleted i" xs]
  by (simp add: orderByCompletion_def length_reindex)

lemma length_normalizeRows: "length (normalizeRows rows) = length rows"
  by (simp add: normalizeRows_def)

lemma normalized_orderByCompletion: "normalized (orderByCompletion xs)"
  by (simp add: orderByCompletion_def normalized_reindex partitioned_split)

lemma insertPayload_reindex:
  "insertPayload uid existing (reindex guest)
     = map (\<lambda>k. \<lparr>p_id = None, p_title = content (guest ! k),
                  p_completed = isCompleted (guest ! k),
                  p_position = int (length existing) + int k, p_user_id = uid\<rparr>)
           [0..<length guest]"
  by (rule nth_equalityI)
     (simp_all add: insertPayload_def length_reindex nth_enumerate_eq reindex_nth)

lemma reindex_Nil_iff: "reindex xs = [] \<longleftrightarrow> xs = []"
  using length_reindex [of xs] by (simp only: length_0_conv [symmetric])

text \<open>
  Claim C2. With a session and a non-empty guest list, when the first select returns
  without error and the invocation has not been cancelled, the merge goes on to the bulk
  insert, with \<open>existing\<close> the fetched rows normalized and partitioned (as many items as
  rows were fetched). The rows it sends are one per guest item, in the order of the guest
  list: row \<open>k\<close> carries the content and the \<open>isCompleted\<close> flag of guest item \<open>k\<close>, no id,
  the user's id, and position \<open>length existing + k\<close>. The guest items are not
  re-partitioned.
\<close>

theorem merge_insert_rows:
  assumes "session s = Some uid" and "hasSupabase s" and "loadGuestItems s \<noteq> []"
  shows "fst (merge_resume False uid (SelectReply (Inr data)) (loadAndMerge s))
           = AwaitInsert (orderByCompletion
                (normalizeRows (case data of None \<Rightarrow> [] | Some rows \<Rightarrow> rows)))
     \<and> length (orderByCompletion
                (normalizeRows (case data of None \<Rightarrow> [] | Some rows \<Rightarrow> rows)))
           = length (case data of None \<Rightarrow> [] | Some rows \<Rightarrow> rows)
     \<and> requests (snd (merge_resume False uid (SelectReply (Inr data)) (loadAndMerge s)))
           = requests s
             @ [Select uid,
                Insert (map (\<lambda>k. \<lparr>p_id = None, p_title = content (loadGuestItems s ! k),
                                     p_completed = isCompleted (loadGuestItems s ! k),
                                     p_position =
                                       int (length (orderByCompletion (normalizeRows
                                          (case data of None \<Rightarrow> [] | Some rows \<Rightarrow> rows))))
                                       + int k,
                                     p_user_id = uid\<rparr>)
                          [0..<length (loadGuestItems s)])]"
proof -
  have g: "loadGuestItems (s\<lparr>isLoading := True, dataError := []\<rparr>) = loadGuestItems s"
    by (simp add: loadGuestItems_def)
  have start: "loadAndMerge s
      = (AwaitFetch (reindex (loadGuestItems s)),
         send (Select uid) (s\<lparr>isLoading := True, dataError := []\<rparr>))"
    using assms(1,2) by (simp add: loadAndMerge_def Let_def g)
  show ?thesis
    using assms(3)
    by (simp add: start after_fetch_def Let_def reindex_Nil_iff insertPayload_reindex send_def
        length_orderByCompletion length_normalizeRows)
qed


theorem merge_insert_rows_witness:
  "session ((user_app ''u'' [])\<lparr>storage := Some [todo ''g'' True 7]\<rparr>) = Some ''u''
   \<and> hasSupabase ((user_app ''u'' [])\<lparr>storage := Some [todo ''g'' True 7]\<rparr>)
   \<and> loadGuestItems ((user_app ''u'' [])\<lparr>storage := Some [todo ''g'' True 7]\<rparr>) \<noteq> []
   \<and> requests (snd (merge_resume False ''u''
         (SelectReply (Inr (Some
            [\<lparr>row_id = ''r1'', title = [0x31], completed = False, row_position = Some 0\<rparr>,
             \<lparr>row_id = ''r2'', title = [0x32], completed = True, row_position = None\<rparr>])))
         (loadAndMerge ((user_app ''u'' [])\<lparr>storage := Some [todo ''g'' True 7]\<rparr>))))
       = [Select ''u'',
          Insert [\<lparr>p_id = None, p_title = [0x74], p_completed = True, p_position = 2,
                   p_user_id = ''u''\<rparr>]]"
proof -
  let ?s = "(user_app ''u'' [])\<lparr>storage := Some [todo ''g'' True 7]\<rparr>"
  have h1: "session ?s = Some ''u''" and h2: "hasSupabase ?s"
    by (simp_all add: user_app_def guest_app_def)
  have g: "loadGuestItems ?s = [todo ''g'' True 7]"
    by (simp add: loadGuestItems_def user_app_def guest_app_def)
  then have h3: "loadGuestItems ?s \<noteq> []"
    by simp
  have r: "requests ?s = []"
    by (simp add: user_app_def guest_app_def)
  note T = merge_insert_rows [OF h1 h2 h3, of "Some
            [\<lparr>row_id = ''r1'', title = [0x31], completed = False, row_position = Some 0\<rparr>,
             \<lparr>row_id = ''r2'', title = [0x32], completed = True, row_position = None\<rparr>]",
            unfolded g r]
  from T have "requests (snd (merge_resume False ''u''
         (SelectReply (Inr (Some
            [\<lparr>row_id = ''r1'', title = [0x31], completed = False, row_position = Some 0\<rparr>,
             \<lparr>row_id = ''r2'', title = [0x32], completed = True, row_position = None\<rparr>])))
         (loadAndMerge ?s)))
       = [Select ''u'',
          Insert [\<lparr>p_id = None, p_title = [0x74], p_completed = True, p_position = 2,
                   p_user_id = ''u''\<rparr>]]"
    by (simp add: todo_def)
  with h1 h2 h3 show ?thesis
    by (simp only: simp_thms)
qed

section \<open>Failure and success of the bulk insert\<close>

lemma after_insert_failure:
  "after_insert False uid existing (Some message) s
     = (Finished, s\<lparr>dataError := message, items := existing, isLoading := False\<rparr>)"
  by (simp add: after_insert_def)

lemma after_insert_success:
  "after_insert False uid existing None s
     = (AwaitRefresh existing, send (Select uid) (clearGuestItems s))"
  by (simp add: after_insert_def)

lemma guest_blob_present:
  "loadGuestItems s \<noteq> [] \<Longrightarrow> hasLocalStorage s \<and> storage s \<noteq> None"
  by (auto simp: loadGuestItems_def split: if_splits option.splits)

text \<open>
  Claim C3 speaks of every sign-in merge. An invocation that has been superseded returns
  at the flag check that follows the bulk insert, before either branch: below, the insert
  of one guest item has been sent and succeeds, the flag is set when it returns, and the
  guest blob is still there.
\<close>

theorem cancelled_insert_keeps_guest_blob_counterexample:
  "requests (snd (merge_resume True ''u'' (InsertReply None)
       (merge_resume False ''u'' (SelectReply (Inr (Some [])))
          (AwaitFetch [todo ''g'' True 0],
           (user_app ''u'' [])\<lparr>storage := Some [todo ''g'' True 7]\<rparr>))))
     = [Insert [\<lparr>p_id = None, p_title = [0x74], p_completed = True, p_position = 0,
                 p_user_id = ''u''\<rparr>]]
   \<and> storage (snd (merge_resume True ''u'' (InsertReply None)
       (merge_resume False ''u'' (SelectReply (Inr (Some [])))
          (AwaitFetch [todo ''g'' True 0],
           (user_app ''u'' [])\<lparr>storage := Some [todo ''g'' True 7]\<rparr>))))
     = Some [todo ''g'' True 7]
   \<and> storage (snd (merge_resume True ''u'' (InsertReply None)
       (merge_resume False ''u'' (SelectReply (Inr (Some [])))
          (AwaitFetch [todo ''g'' True 0],
           (user_app ''u'' [])\<lparr>storage := Some [todo ''g'' True 7]\<rparr>))))
     \<noteq> None"
  by (simp add: after_fetch_def after_insert_def Let_def normalizeRows_def
      orderByCompletion_def reindex_def insertPayload_def send_def user_app_def guest_app_def
      todo_def)

text \<open>
  Claim C3, amended. Take an invocation whose flag is not set when the replies are
  handled and which has guest items to merge, the guest blob holding items. The list
  \<open>existing\<close> it keeps from the first select is normalized. If the bulk insert fails, the
  error is shown, the current list becomes \<open>existing\<close>, loading ends and the guest blob
  is what it was. The guest blob is gone afterwards exactly when the insert succeeded.
\<close>

theorem insert_outcome_decides_guest_blob:
  assumes "guestItems \<noteq> []" and "loadGuestItems s \<noteq> []"
  shows "normalized (orderByCompletion
            (normalizeRows (case data of None \<Rightarrow> [] | Some rows \<Rightarrow> rows)))
     \<and> (\<forall>message. insertError = Some message \<longrightarrow>
           snd (merge_resume False uid (InsertReply insertError)
                 (merge_resume False uid (SelectReply (Inr data)) (AwaitFetch guestItems, s)))
             = (snd (merge_resume False uid (SelectReply (Inr data)) (AwaitFetch guestItems, s)))
                 \<lparr>dataError := message,
                  items := orderByCompletion
                     (normalizeRows (case data of None \<Rightarrow> [] | Some rows \<Rightarrow> rows)),
                  isLoading := False\<rparr>
           \<and> storage (snd (merge_resume False uid (InsertReply insertError)
                 (merge_resume False uid (SelectReply (Inr data)) (AwaitFetch guestItems, s))))
             = storage s)
     \<and> (storage (snd (merge_resume False uid (InsertReply insertError)
                (merge_resume False uid (SelectReply (Inr data)) (AwaitFetch guestItems, s))))
            = None
          \<longleftrightarrow> insertError = None)
     \<and> (loadGuestItems (snd (merge_resume False uid (InsertReply insertError)
                (merge_resume False uid (SelectReply (Inr data)) (AwaitFetch guestItems, s))))
            = []
          \<longleftrightarrow> insertError = None)"
proof -
  let ?existing = "orderByCompletion
            (normalizeRows (case data of None \<Rightarrow> [] | Some rows \<Rightarrow> rows))"
  let ?s1 = "send (Insert (insertPayload uid ?existing guestItems)) s"
  have fetched: "after_fetch False uid guestItems (Inr data) s = (AwaitInsert ?existing, ?s1)"
    using assms(1) by (simp add: after_fetch_def Let_def)
  have blob: "hasLocalStorage s" "storage s \<noteq> None"
    using guest_blob_present [OF assms(2)] by simp_all
  have s1: "storage ?s1 = storage s" "loadGuestItems ?s1 = loadGuestItems s"
    "hasLocalStorage ?s1"
    using blob by (simp_all add: send_def loadGuestItems_def)
  show ?thesis
  proof (cases insertError)
    case None
    then show ?thesis
      using s1 blob
      by (simp add: fetched after_insert_success normalized_orderByCompletion send_def
          clearGuestItems_def loadGuestItems_def)
  next
    case (Some message)
    then show ?thesis
      using s1 blob assms(2)
      by (simp add: fetched after_insert_failure normalized_orderByCompletion
          loadGuestItems_def)
  qed
qed


theorem insert_outcome_decides_guest_blob_witness:
  "[todo ''g'' True 0] \<noteq> []
   \<and> loadGuestItems ((user_app ''u'' [])\<lparr>storage := Some [todo ''g'' True 7]\<rparr>) \<noteq> []
   \<and> storage (snd (merge_resume False ''u'' (InsertReply (Some ''boom''))
         (merge_resume False ''u'' (SelectReply (Inr (Some [])))
            (AwaitFetch [todo ''g'' True 0],
             (user_app ''u'' [])\<lparr>storage := Some [todo ''g'' True 7]\<rparr>))))
       = Some [todo ''g'' True 7]
   \<and> storage (snd (merge_resume False ''u'' (InsertReply None)
         (merge_resume False ''u'' (SelectReply (Inr (Some [])))
            (AwaitFetch [todo ''g'' True 0],
             (user_app ''u'' [])\<lparr>storage := Some [todo ''g'' True 7]\<rparr>))))
       = None"
proof -
  let ?s = "(user_app ''u'' [])\<lparr>storage := Some [todo ''g'' True 7]\<rparr>"
  have h1: "[todo ''g'' True 0] \<noteq> []"
    by simp
  have h2: "loadGuestItems ?s \<noteq> []"
    by (simp add: loadGuestItems_def user_app_def guest_app_def)
  have st: "storage ?s = Some [todo ''g'' True 7]"
    by (simp add: user_app_def guest_app_def)
  from insert_outcome_decides_guest_blob
         [OF h1 h2, of "Some []" "Some ''boom''" "''u''", unfolded st]
  have failed: "storage (snd (merge_resume False ''u'' (InsertReply (Some ''boom''))
         (merge_resume False ''u'' (SelectReply (Inr (Some [])))
            (AwaitFetch [todo ''g'' True 0], ?s))))
       = Some [todo ''g'' True 7]"
    by blast
  from insert_outcome_decides_guest_blob [OF h1 h2, of "Some []" None "''u''"]
  have cleared: "storage (snd (merge_resume False ''u'' (InsertReply None)
         (merge_resume False ''u'' (SelectReply (Inr (Some [])))
            (AwaitFetch [todo ''g'' True 0], ?s))))
       = None"
    by blast
  show ?thesis
    using h1 h2 failed cleared by (simp only: simp_thms)
qed

section \<open>Cancellation\<close>

text \<open>
  The awaited flow checks the flag first thing after each of its three awaited calls: a
  select or insert reply that arrives once the flag is set changes nothing.
\<close>

lemma cancelled_awaited_reply_changes_nothing:
  "snd (merge_resume True uid (SelectReply answer) (pc, s)) = s"
  "snd (merge_resume True uid (InsertReply insertError) (pc, s)) = s"
  by (cases pc; simp add: after_fetch_def after_insert_def after_refresh_def)+

text \<open>
  Claim C9 says that once the flag is set no state update of the merge is applied, the
  error slot included, and that the flag is checked after every network round trip. The
  write-back \<^verbatim>\<open>upsert\<close> is a round trip of the merge whose callback does not look at the
  flag. In the run below a signed-in user has no guest items and one remote row: the
  select returns, the merge adopts the row and sends the upsert; then the flag is set and
  the upsert fails. The error slot, empty until then, takes the upsert's message.
\<close>

theorem cancelled_merge_still_reports_upsert_error:
  "requests (snd (merge_run ''u''
       [(False, SelectReply (Inr (Some
           [\<lparr>row_id = ''r1'', title = [0x31], completed = False, row_position = Some 0\<rparr>])))]
       (loadAndMerge (user_app ''u'' []))))
     = [Select ''u'',
        Upsert [\<lparr>p_id = Some ''r1'', p_title = [0x31], p_completed = False, p_position = 0,
                 p_user_id = ''u''\<rparr>]]
   \<and> dataError (snd (merge_run ''u''
       [(False, SelectReply (Inr (Some
           [\<lparr>row_id = ''r1'', title = [0x31], completed = False, row_position = Some 0\<rparr>])))]
       (loadAndMerge (user_app ''u'' []))))
     = []
   \<and> dataError (snd (merge_run ''u''
       [(False, SelectReply (Inr (Some
           [\<lparr>row_id = ''r1'', title = [0x31], completed = False, row_position = Some 0\<rparr>]))),
        (True, UpsertReply (Some ''JWT expired''))]
       (loadAndMerge (user_app ''u'' []))))
     = ''JWT expired''"
  by (simp add: merge_run_def loadAndMerge_def user_app_def guest_app_def loadGuestItems_def
      reindex_def send_def after_fetch_def normalizeRows_def orderByCompletion_def Let_def
      to_payload_def write_then_def)

end
